theory Spec2Isabelle
  imports Main
begin

section \<open>Python string primitives used by the comment handler\<close>

text \<open>
  Strings are lists of characters. The whitespace class is the one shared by
  \<^verbatim>\<open>str.strip()\<close>, \<^verbatim>\<open>str.split()\<close> and the regular expression class
  \<^verbatim>\<open>\s\<close> on byte strings: space, tab, line feed, vertical tab, form feed and
  carriage return.
\<close>

definition is_space :: "char \<Rightarrow> bool" where
  "is_space c \<longleftrightarrow>
     c = CHR '' '' \<or> c = CHR 0x09 \<or> c = CHR 0x0A \<or> c = CHR 0x0B \<or> c = CHR 0x0C \<or> c = CHR 0x0D"

definition newline :: char where
  "newline = CHR 0x0A"

text \<open>\<^verbatim>\<open>s.strip()\<close>: leading and trailing whitespace removed.\<close>

definition strip :: "string \<Rightarrow> string" where
  "strip s = rev (dropWhile is_space (rev (dropWhile is_space s)))"

text \<open>\<^verbatim>\<open>s.startswith(p)\<close>.\<close>

fun startswith :: "string \<Rightarrow> string \<Rightarrow> bool" where
  "startswith s [] = True"
| "startswith [] (p # ps) = False"
| "startswith (x # xs) (p # ps) = (x = p \<and> startswith xs ps)"

text \<open>\<^verbatim>\<open>m in s\<close> on strings: \<open>m\<close> occurs in \<open>s\<close> as a contiguous substring.\<close>

fun substring_in :: "string \<Rightarrow> string \<Rightarrow> bool" where
  "substring_in m [] = (m = [])"
| "substring_in m (x # xs) = (startswith (x # xs) m \<or> substring_in m xs)"

text \<open>
  The maximal runs of characters that are not separators, in order, with empty runs
  dropped. With \<open>sep = is_space\<close> this is \<^verbatim>\<open>s.split()\<close>; with the separators of
  \<^verbatim>\<open>[^,\s]+\<close> it is \<^verbatim>\<open>re.findall\<close> of that pattern. \<open>cur\<close> is the run being read.
\<close>

fun tokens :: "(char \<Rightarrow> bool) \<Rightarrow> string \<Rightarrow> string \<Rightarrow> string list" where
  "tokens sep cur [] = (if cur = [] then [] else [cur])"
| "tokens sep cur (x # xs) =
     (if sep x then (if cur = [] then tokens sep [] xs else cur # tokens sep [] xs)
      else tokens sep (cur @ [x]) xs)"

definition split_ws :: "string \<Rightarrow> string list" where
  "split_ws s = tokens is_space [] s"

text \<open>\<^verbatim>\<open>sep.join(xs)\<close>.\<close>

fun join :: "string \<Rightarrow> string list \<Rightarrow> string" where
  "join sep [] = []"
| "join sep [x] = x"
| "join sep (x # y # ys) = x @ sep @ join sep (y # ys)"

text \<open>\<^verbatim>\<open>s.replace('//', '')\<close>: the non-overlapping occurrences, from the left.\<close>

fun remove_slashes :: "string \<Rightarrow> string" where
  "remove_slashes (a # b # xs) =
     (if a = CHR ''/'' \<and> b = CHR ''/'' then remove_slashes xs else a # remove_slashes (b # xs))"
| "remove_slashes xs = xs"

section \<open>The status classifier\<close>

definition skip_suppress_status :: "string \<Rightarrow> bool" where
  "skip_suppress_status st \<longleftrightarrow> st \<in> set [''false_positive'', ''intentional'']"

section \<open>The directive parser\<close>

definition source_code_comment_markers :: "string list" where
  "source_code_comment_markers =
     [''codechecker_suppress'', ''codechecker_false_positive'',
      ''codechecker_intentional'', ''codechecker_confirmed'']"

definition check_if_comment :: "string \<Rightarrow> bool" where
  "check_if_comment source_line = startswith (strip source_line) ''//''"

text \<open>
  The pattern of \<^verbatim>\<open>__process_source_line_comment\<close> is
  \<^verbatim>\<open>^\s*(?P<status>m1|m2|m3|m4)\s*\[\s*(?P<checkers>(.*))\s*\]\s*(?P<comment>.*)$\<close>,
  matched by a backtracking engine from the start of the text. The matcher below follows
  the pattern from right to left. Every \<^verbatim>\<open>\s*\<close> is followed by something that
  whitespace cannot start (a marker, a bracket) or by \<^verbatim>\<open>.*\<close>, which accepts what a
  shorter \<^verbatim>\<open>\s*\<close> would leave, so taking the whole whitespace run loses no match and
  is the engine's first choice. The only choice that matters is the length of the
  greedy \<^verbatim>\<open>.*\<close> of the checkers group, tried longest first.
\<close>

text \<open>\<^verbatim>\<open>(?P<comment>.*)$\<close>: the dot excludes the line feed, the dollar accepts the end of
  the text or a single final line feed.\<close>

definition match_comment_group :: "string \<Rightarrow> string option" where
  "match_comment_group w =
     (let r = dropWhile (\<lambda>x. x \<noteq> newline) w
      in if r = [] \<or> r = [newline] then Some (takeWhile (\<lambda>x. x \<noteq> newline) w) else None)"

text \<open>\<^verbatim>\<open>\s*\]\s*(?P<comment>.*)$\<close>.\<close>

definition match_close :: "string \<Rightarrow> string option" where
  "match_close r =
     (case dropWhile is_space r of
        [] \<Rightarrow> None
      | x # v \<Rightarrow> if x = CHR '']'' then match_comment_group (dropWhile is_space v) else None)"

text \<open>\<^verbatim>\<open>(?P<checkers>(.*))\<close> followed by the rest of the pattern: the longest prefix
  without a line feed after which the rest matches. The result is the pair of the
  checkers group and the comment group.\<close>

fun match_checkers_group :: "string \<Rightarrow> (string \<times> string) option" where
  "match_checkers_group [] = map_option (Pair []) (match_close [])"
| "match_checkers_group (x # xs) =
     (if x \<noteq> newline then
        (case match_checkers_group xs of
           Some (ch, cm) \<Rightarrow> Some (x # ch, cm)
         | None \<Rightarrow> map_option (Pair []) (match_close (x # xs)))
      else map_option (Pair []) (match_close (x # xs)))"

text \<open>\<^verbatim>\<open>\s*\[\s*\<close> and what follows.\<close>

definition match_open :: "string \<Rightarrow> (string \<times> string) option" where
  "match_open t =
     (case dropWhile is_space t of
        [] \<Rightarrow> None
      | x # u \<Rightarrow> if x = CHR ''['' then match_checkers_group (dropWhile is_space u) else None)"

text \<open>The alternation of the markers, in the order of the list; a later marker is tried
  when an earlier one is a prefix of the text but the rest does not match.\<close>

fun match_status :: "string list \<Rightarrow> string \<Rightarrow> (string \<times> string \<times> string) option" where
  "match_status [] s = None"
| "match_status (m # ms) s =
     (if startswith s m then
        (case match_open (drop (length m) s) of
           Some (ch, cm) \<Rightarrow> Some (m, ch, cm)
         | None \<Rightarrow> match_status ms s)
      else match_status ms s)"

text \<open>\<^verbatim>\<open>re.match(ptn, formatted)\<close>: the groups status, checkers and comment.\<close>

definition re_match :: "string \<Rightarrow> (string \<times> string \<times> string) option" where
  "re_match s = match_status source_code_comment_markers (dropWhile is_space s)"

text \<open>\<^verbatim>\<open>' '.join(source_line_comment.split())\<close>.\<close>

definition formatted :: "string \<Rightarrow> string" where
  "formatted source_line_comment = join '' '' (split_ws source_line_comment)"

text \<open>\<^verbatim>\<open>re.findall(r"[^,\s]+", text)\<close>.\<close>

definition findall_checkers :: "string \<Rightarrow> string list" where
  "findall_checkers text = tokens (\<lambda>c. c = CHR '','' \<or> is_space c) [] text"

text \<open>The dictionary with the keys \<^verbatim>\<open>checkers\<close>, \<^verbatim>\<open>message\<close> and \<^verbatim>\<open>status\<close>.\<close>

record directive =
  checkers :: "string set"
  message :: string
  status :: string

definition missing_message :: string where
  "missing_message = ''WARNING! source code comment is missing''"

text \<open>\<^verbatim>\<open>__process_source_line_comment\<close>; \<open>None\<close> is the implicit return of Python when
  the pattern does not match.\<close>

definition process_source_line_comment :: "string \<Rightarrow> directive option" where
  "process_source_line_comment source_line_comment =
     (case re_match (formatted source_line_comment) of
        None \<Rightarrow> None
      | Some (st, ch, comment) \<Rightarrow>
          Some \<lparr> checkers = (if ch = ''all'' then {''all''} else set (findall_checkers (strip ch))),
                 message = (if comment \<noteq> [] then comment else missing_message),
                 status = (if st = ''codechecker_intentional'' then ''intentional''
                           else if st = ''codechecker_confirmed'' then ''confirmed''
                           else ''false_positive'') \<rparr>)"

section \<open>The comment scanner\<close>

text \<open>
  The line reader \<^verbatim>\<open>util.get_line(source_file, n)\<close> is not part of this module; the
  scanner takes it as the function \<open>get_line\<close> from line numbers to line texts. What the
  scanner does to the outside is recorded as events: the line numbers it asks the reader
  for, and the warnings it logs (line number and the text \<^verbatim>\<open>' '.join(rev)\<close>). Debug
  logging is left out.
\<close>

datatype event = Get_Line int | Log_Warning int string

definition has_any_marker :: "string \<Rightarrow> bool" where
  "has_any_marker source_line \<longleftrightarrow>
     (\<exists>marker \<in> set source_code_comment_markers. substring_in marker source_line)"

text \<open>The text of a closed block: \<^verbatim>\<open>''.join(rev).replace('//', '')\<close> with
  \<^verbatim>\<open>rev = list(reversed(curr_suppress_comment))\<close>.\<close>

definition suppress_comment :: "string list \<Rightarrow> string" where
  "suppress_comment curr_suppress_comment = remove_slashes (concat (rev curr_suppress_comment))"

text \<open>The body of the loop for a line that is a comment (lines 189 to 206): the new
  accumulator, the new result list and the new events.\<close>

definition comment_line_step ::
  "string \<Rightarrow> int \<Rightarrow> string list \<Rightarrow> directive list \<Rightarrow> event list
     \<Rightarrow> string list \<times> directive list \<times> event list" where
  "comment_line_step source_line previous_line_num curr0 source_line_comments events =
     (let curr1 = curr0 @ [strip source_line]
      in if has_any_marker source_line then
           (case process_source_line_comment (suppress_comment curr1) of
              Some comment \<Rightarrow> ([], source_line_comments @ [comment], events)
            | None \<Rightarrow>
                ([], source_line_comments,
                 events @ [Log_Warning previous_line_num (join '' '' (rev curr1))]))
         else (curr1, source_line_comments, events))"

text \<open>The \<^verbatim>\<open>while True\<close> loop of \<^verbatim>\<open>get_source_line_comments\<close>.\<close>

function scan_loop ::
  "(int \<Rightarrow> string) \<Rightarrow> int \<Rightarrow> string list \<Rightarrow> directive list \<Rightarrow> event list
     \<Rightarrow> directive list \<times> event list" where
  "scan_loop get_line previous_line_num curr0 source_line_comments events =
     (let source_line = get_line previous_line_num;
          events1 = events @ [Get_Line previous_line_num]
      in if \<not> check_if_comment source_line then (source_line_comments, events1)
         else
           (case comment_line_step source_line previous_line_num curr0 source_line_comments events1 of
              (curr2, comments2, events2) \<Rightarrow>
                if previous_line_num > 0
                then scan_loop get_line (previous_line_num - 1) curr2 comments2 events2
                else (comments2, events2)))"
  by pat_completeness auto
termination
  by (relation "measure (\<lambda>(g, n, c, out, ev). nat n)") auto

definition scan :: "(int \<Rightarrow> string) \<Rightarrow> int \<Rightarrow> directive list \<times> event list" where
  "scan get_line bug_line =
     (let previous_line_num = bug_line - 1
      in if previous_line_num < 1 then ([], [])
         else scan_loop get_line previous_line_num [] [] [])"

definition get_source_line_comments :: "(int \<Rightarrow> string) \<Rightarrow> int \<Rightarrow> directive list" where
  "get_source_line_comments get_line bug_line = fst (scan get_line bug_line)"

text \<open>The line numbers handed to the line reader during one call, in order.\<close>

fun requested_lines :: "event list \<Rightarrow> int list" where
  "requested_lines [] = []"
| "requested_lines (Get_Line n # es) = n # requested_lines es"
| "requested_lines (Log_Warning n t # es) = requested_lines es"

definition has_source_line_comments :: "(int \<Rightarrow> string) \<Rightarrow> int \<Rightarrow> int" where
  "has_source_line_comments get_line line = int (length (get_source_line_comments get_line line))"

section \<open>The checker filter\<close>

text \<open>
  The \<^verbatim>\<open>for\<close> loop of \<^verbatim>\<open>filter_source_line_comments\<close> over the variables
  \<^verbatim>\<open>all_checker_comment\<close>, \<^verbatim>\<open>checker_name_comments\<close> and \<^verbatim>\<open>comment_len\<close>. The last
  one is assigned at the top of every iteration and read again after the loop; the
  function returns before the loop when the list is empty, so it is always assigned when
  read.
\<close>

fun filter_loop ::
  "string \<Rightarrow> directive list \<Rightarrow> directive option \<Rightarrow> directive list \<Rightarrow> nat
     \<Rightarrow> directive option \<times> directive list \<times> nat" where
  "filter_loop checker_name [] all_checker_comment checker_name_comments comment_len =
     (all_checker_comment, checker_name_comments, comment_len)"
| "filter_loop checker_name (line_comment # rest) all_checker_comment checker_name_comments comment_len =
     (let comment_len1 = length checker_name_comments;
          all1 = (if ''all'' \<in> checkers line_comment \<and> comment_len1 = 0
                  then Some line_comment else all_checker_comment);
          names1 = (if checker_name \<in> checkers line_comment
                    then checker_name_comments @ [line_comment] else checker_name_comments)
      in filter_loop checker_name rest all1 names1 comment_len1)"

definition filter_comments :: "directive list \<Rightarrow> string \<Rightarrow> directive list" where
  "filter_comments source_line_comments checker_name =
     (if length source_line_comments = 0 then []
      else
        (case filter_loop checker_name source_line_comments None [] 0 of
           (all_checker_comment, checker_name_comments, comment_len) \<Rightarrow>
             (case all_checker_comment of
                Some c \<Rightarrow> if comment_len = 0 then checker_name_comments @ [c]
                          else checker_name_comments
              | None \<Rightarrow> checker_name_comments)))"

definition filter_source_line_comments ::
  "(int \<Rightarrow> string) \<Rightarrow> int \<Rightarrow> string \<Rightarrow> directive list" where
  "filter_source_line_comments get_line bug_line checker_name =
     filter_comments (get_source_line_comments get_line bug_line) checker_name"

section \<open>Blocks and example files\<close>

text \<open>The text of the block made of the lines \<open>n\<close> to \<open>m\<close> of the file, top to bottom:
  every line trimmed, the lines concatenated with nothing between them, every
  \<^verbatim>\<open>//\<close> removed.\<close>

definition block_text :: "(int \<Rightarrow> string) \<Rightarrow> int \<Rightarrow> int \<Rightarrow> string" where
  "block_text get_line n m = remove_slashes (concat (map (\<lambda>j. strip (get_line j)) [n..m]))"

text \<open>A line reader over a file given as the list of its lines, line 1 first. Outside
  the file it returns the empty text. It is used for the concrete files below.\<close>

definition file_lines :: "string list \<Rightarrow> int \<Rightarrow> string" where
  "file_lines ls n = (if 1 \<le> n \<and> n \<le> int (length ls) then ls ! nat (n - 1) else [])"

definition wildcard_below_explicit :: "int \<Rightarrow> string" where
  "wildcard_below_explicit =
     file_lines [''// codechecker_suppress [x] foo'', ''// codechecker_suppress [all] bar'']"

definition malformed_below_confirmed :: "int \<Rightarrow> string" where
  "malformed_below_confirmed =
     file_lines [''// codechecker_confirmed [core.Foo] ok'',
                 ''// codechecker_suppress core.Foo some comment'']"

definition code_between_comments :: "int \<Rightarrow> string" where
  "code_between_comments =
     file_lines [''// codechecker_suppress [a] x'', ''int x;'', ''// note'']"

definition only_wildcard :: "int \<Rightarrow> string" where
  "only_wildcard = file_lines [''// codechecker_suppress [all] x'']"

definition fully_commented :: "int \<Rightarrow> string" where
  "fully_commented = file_lines [''// a fully commented file'']"

definition split_directive :: "int \<Rightarrow> string" where
  "split_directive = file_lines [''// codechecker_suppress [a,b] some'', ''// comment'']"

definition unspaced_continuation :: "int \<Rightarrow> string" where
  "unspaced_continuation = file_lines [''// codechecker_suppress [a] some'', ''//comment'']"

definition empty_brackets :: "int \<Rightarrow> string" where
  "empty_brackets = file_lines [''// codechecker_suppress [] x'']"

text \<open>
  The text of a block as the specification words it: the lines of the block from top to
  bottom with the line breaks between them, every \<^verbatim>\<open>//\<close> removed, every run of
  whitespace, line breaks included, collapsed to one space. It is compared below with
  what the code hands to the pattern, \<open>formatted (block_text get_line n m)\<close>.
\<close>

definition spec_block_text :: "string list \<Rightarrow> string" where
  "spec_block_text block_lines = formatted (remove_slashes (join [newline] block_lines))"


text \<open>
  Collapsing whitespace, said directly: \<open>squeeze\<close> replaces every maximal run of
  whitespace by one space, \<open>rtrim\<close> drops the whitespace at the end, and
  \<open>single_spaced\<close> holds of a text in which no two whitespace characters are adjacent.
  They are what \<open>formatted\<close> is measured against.
\<close>

function squeeze :: "string \<Rightarrow> string" where
  "squeeze [] = []"
| "squeeze (x # xs) =
     (if is_space x then CHR '' '' # squeeze (dropWhile is_space xs) else x # squeeze xs)"
  by pat_completeness auto
termination
  by (relation "measure length") (auto simp: length_dropWhile_le less_Suc_eq_le)

definition rtrim :: "string \<Rightarrow> string" where
  "rtrim s = rev (dropWhile is_space (rev s))"

fun single_spaced :: "string \<Rightarrow> bool" where
  "single_spaced (x # y # ys) = (\<not> (is_space x \<and> is_space y) \<and> single_spaced (y # ys))"
| "single_spaced xs = True"

section \<open>Facts about splitting, joining and the pattern\<close>

lemma tokens_clean_all:
  "\<forall>c\<in>set cur. \<not> sep c \<Longrightarrow> \<forall>t\<in>set (tokens sep cur xs). t \<noteq> [] \<and> (\<forall>c\<in>set t. \<not> sep c)"
proof (induction xs arbitrary: cur)
  case Nil
  then show ?case by simp
next
  case (Cons x xs)
  have e: "\<forall>t\<in>set (tokens sep [] xs). t \<noteq> [] \<and> (\<forall>c\<in>set t. \<not> sep c)"
    using Cons.IH [of "[]"] by simp
  show ?case
  proof (cases "sep x")
    case True
    then show ?thesis using e Cons.prems by auto
  next
    case False
    then have "\<forall>c\<in>set (cur @ [x]). \<not> sep c" using Cons.prems by simp
    then show ?thesis using Cons.IH [of "cur @ [x]"] False by simp
  qed
qed

lemma tokens_clean:
  "\<forall>c\<in>set cur. \<not> sep c \<Longrightarrow> t \<in> set (tokens sep cur xs) \<Longrightarrow> t \<noteq> [] \<and> (\<forall>c\<in>set t. \<not> sep c)"
  using tokens_clean_all by blast

lemma tokens_empty_iff:
  "tokens sep cur xs = [] \<longleftrightarrow> cur = [] \<and> (\<forall>c\<in>set xs. sep c)"
  by (induction xs arbitrary: cur) auto

lemma tokens_run:
  "\<forall>c\<in>set t. \<not> sep c \<Longrightarrow> tokens sep cur (t @ rest) = tokens sep (cur @ t) rest"
  by (induction t arbitrary: cur) auto

lemma tokens_join:
  "\<forall>t\<in>set ts. t \<noteq> [] \<and> (\<forall>c\<in>set t. \<not> is_space c) \<Longrightarrow>
     tokens is_space [] (join '' '' ts) = ts"
proof (induction "'' ''" ts rule: join.induct)
  case 1
  then show ?case by simp
next
  case (2 x)
  then show ?case using tokens_run [of x is_space "[]" "[]"] by simp
next
  case (3 x y ys)
  have sp: "is_space CHR '' ''" by (simp add: is_space_def)
  have "tokens is_space [] (x @ CHR '' '' # join '' '' (y # ys)) =
          tokens is_space x (CHR '' '' # join '' '' (y # ys))"
    using 3 tokens_run [of x is_space "[]"] by simp
  also have "\<dots> = x # tokens is_space [] (join '' '' (y # ys))"
    using 3 sp by simp
  finally show ?case using 3 by simp
qed

lemma split_ws_clean:
  "t \<in> set (split_ws s) \<Longrightarrow> t \<noteq> [] \<and> (\<forall>c\<in>set t. \<not> is_space c)"
  using tokens_clean [of "[]" is_space t s] by (simp add: split_ws_def)

lemma split_ws_formatted: "split_ws (formatted s) = split_ws s"
  using tokens_join [of "split_ws s"] split_ws_clean
  by (simp add: formatted_def) (simp add: split_ws_def)

lemma join_chars:
  "c \<in> set (join sep ts) \<Longrightarrow> c \<in> set sep \<or> (\<exists>t\<in>set ts. c \<in> set t)"
  by (induction sep ts rule: join.induct) auto

lemma formatted_spaces: "c \<in> set (formatted s) \<Longrightarrow> is_space c \<Longrightarrow> c = CHR '' ''"
  using join_chars [of c "'' ''" "split_ws s"] split_ws_clean by (auto simp: formatted_def)


lemma join_last:
  "\<forall>t\<in>set ts. t \<noteq> [] \<and> \<not> is_space (last t) \<Longrightarrow>
     join sep ts = [] \<or> \<not> is_space (last (join sep ts))"
proof (induction sep ts rule: join.induct)
  case (3 sep x y ys)
  then have "join sep (y # ys) \<noteq> []" by (cases ys) auto
  then show ?case using 3 by simp
qed auto

lemma formatted_last: "formatted s = [] \<or> \<not> is_space (last (formatted s))"
proof -
  have "\<forall>t\<in>set (split_ws s). t \<noteq> [] \<and> \<not> is_space (last t)"
    using split_ws_clean last_in_set by blast
  then show ?thesis using join_last by (simp add: formatted_def)
qed




lemma match_close_none:
  "CHR '']'' \<notin> set r \<Longrightarrow> match_close r = None"
proof -
  assume a: "CHR '']'' \<notin> set r"
  have "x \<noteq> CHR '']''" if "dropWhile is_space r = x # v" for x v
    using that a set_dropWhileD [of x is_space r] by (metis list.set_intros(1))
  then show ?thesis by (auto simp: match_close_def split: list.splits)
qed


lemma match_checkers_group_none:
  "CHR '']'' \<notin> set u \<Longrightarrow> match_checkers_group u = None"
  by (induction u) (auto simp: match_close_none)









lemma dropWhile_rev_last:
  "xs \<noteq> [] \<Longrightarrow> \<not> P (last xs) \<Longrightarrow> dropWhile P (rev xs) = rev xs"
  by (cases xs rule: rev_cases) auto




lemma strip_chars:
  "(\<exists>c\<in>set (strip s). \<not> is_space c \<and> P c) \<longleftrightarrow> (\<exists>c\<in>set s. \<not> is_space c \<and> P c)"
proof
  assume "\<exists>c\<in>set (strip s). \<not> is_space c \<and> P c"
  then obtain c where c: "c \<in> set (strip s)" "\<not> is_space c \<and> P c" by blast
  then have "c \<in> set (dropWhile is_space (rev (dropWhile is_space s)))" by (simp add: strip_def)
  then have "c \<in> set (rev (dropWhile is_space s))" by (rule set_dropWhileD)
  then have "c \<in> set s" using set_dropWhileD [of c is_space s] by simp
  then show "\<exists>c\<in>set s. \<not> is_space c \<and> P c" using c(2) by blast
next
  have keep: "c \<in> set (dropWhile is_space xs)" if "c \<in> set xs" "\<not> is_space c" for c xs
    using that by (induction xs) auto
  assume "\<exists>c\<in>set s. \<not> is_space c \<and> P c"
  then obtain c where c: "c \<in> set s" "\<not> is_space c" "P c" by blast
  then have "c \<in> set (rev (dropWhile is_space s))" using keep by simp
  then have "c \<in> set (strip s)" using keep c(2) by (simp add: strip_def)
  then show "\<exists>c\<in>set (strip s). \<not> is_space c \<and> P c" using c by blast
qed

lemma findall_checkers_clean:
  assumes "t \<in> set (findall_checkers x)"
  shows "t \<noteq> [] \<and> (\<forall>c\<in>set t. c \<noteq> CHR '','' \<and> \<not> is_space c)"
proof -
  let ?sep = "\<lambda>c. c = CHR '','' \<or> is_space c"
  have e: "\<forall>c\<in>set ([]::string). \<not> ?sep c" by simp
  have m: "t \<in> set (tokens ?sep [] x)" using assms unfolding findall_checkers_def .
  have "t \<noteq> [] \<and> (\<forall>c\<in>set t. \<not> ?sep c)" by (rule tokens_clean [of "[]" ?sep t x, OF e m])
  then show ?thesis by blast
qed

lemma findall_checkers_empty_iff:
  "findall_checkers x = [] \<longleftrightarrow> (\<forall>c\<in>set x. c = CHR '','' \<or> is_space c)"
  unfolding findall_checkers_def tokens_empty_iff by simp

lemma process_checkers:
  assumes "process_source_line_comment s = Some d" "re_match (formatted s) = Some (st, ch, cm)"
  shows "checkers d = (if ch = ''all'' then {''all''} else set (findall_checkers (strip ch)))"
  using assms unfolding process_source_line_comment_def by auto

lemma process_matches:
  assumes "process_source_line_comment s = Some d"
  shows "\<exists>st ch cm. re_match (formatted s) = Some (st, ch, cm)"
proof (cases "re_match (formatted s)")
  case None
  then show ?thesis using assms unfolding process_source_line_comment_def by simp
next
  case (Some g)
  then show ?thesis by (cases g) simp
qed

lemma all_token_clean:
  "t \<in> {''all''} \<Longrightarrow> t \<noteq> [] \<and> (\<forall>c\<in>set t. c \<noteq> CHR '','' \<and> \<not> is_space c)"
  by (simp add: is_space_def)


lemma formatted_idem: "formatted (formatted t) = formatted t"
  by (simp add: formatted_def [of "formatted t"] split_ws_formatted) (simp add: formatted_def)

lemma process_formatted:
  "process_source_line_comment (formatted t) = process_source_line_comment t"
  by (simp add: process_source_line_comment_def formatted_idem)


section \<open>Facts about collapsed whitespace\<close>

lemma single_spaced_word:
  "\<forall>c\<in>set w. \<not> is_space c \<Longrightarrow> single_spaced (w @ r) = single_spaced r"
proof (induction w)
  case Nil
  then show ?case by simp
next
  case (Cons a w)
  then have a: "\<not> is_space a" and ih: "single_spaced (w @ r) = single_spaced r" by simp_all
  show ?case
  proof (cases "w @ r")
    case Nil
    then show ?thesis by simp
  next
    case (Cons b bs)
    have "single_spaced (a # b # bs) = single_spaced (b # bs)" using a by simp
    then show ?thesis using ih Cons by simp
  qed
qed

lemma join_hd:
  "\<forall>t\<in>set ts. t \<noteq> [] \<and> \<not> is_space (hd t) \<Longrightarrow>
     join sep ts = [] \<or> \<not> is_space (hd (join sep ts))"
  by (induction sep ts rule: join.induct) auto

lemma formatted_hd: "formatted s = [] \<or> \<not> is_space (hd (formatted s))"
proof -
  have "\<forall>t\<in>set (split_ws s). t \<noteq> [] \<and> \<not> is_space (hd t)"
    using split_ws_clean hd_in_set by blast
  then show ?thesis using join_hd by (simp add: formatted_def)
qed

lemma strip_id:
  assumes "F = [] \<or> (\<not> is_space (hd F) \<and> \<not> is_space (last F))"
  shows "strip F = F"
proof (cases F)
  case Nil
  then show ?thesis by (simp add: strip_def)
next
  case (Cons a v)
  then have h: "\<not> is_space a" and l: "\<not> is_space (last F)" using assms by auto
  have d: "dropWhile is_space F = F" using h Cons by simp
  have "dropWhile is_space (rev F) = rev F"
    using l Cons by (intro dropWhile_rev_last) simp_all
  then show ?thesis unfolding strip_def d by simp
qed

lemma strip_formatted: "strip (formatted s) = formatted s"
  using formatted_hd [of s] formatted_last [of s] by (intro strip_id) blast

lemma join_single_spaced:
  "\<forall>t\<in>set ts. t \<noteq> [] \<and> (\<forall>c\<in>set t. \<not> is_space c) \<Longrightarrow> single_spaced (join '' '' ts)"
proof (induction "'' ''" ts rule: join.induct)
  case 1
  then show ?case by simp
next
  case (2 x)
  then show ?case using single_spaced_word [of x "[]"] by simp
next
  case (3 x y ys)
  have ih: "single_spaced (join '' '' (y # ys))" using 3 by simp
  have "\<forall>t\<in>set (y # ys). t \<noteq> [] \<and> \<not> is_space (hd t)" using 3(2) hd_in_set by auto
  then have "join '' '' (y # ys) = [] \<or> \<not> is_space (hd (join '' '' (y # ys)))"
    by (rule join_hd)
  moreover have "join '' '' (y # ys) \<noteq> []" using 3(2) by (cases ys) auto
  ultimately obtain b bs where b: "join '' '' (y # ys) = b # bs" "\<not> is_space b"
    by (cases "join '' '' (y # ys)") auto
  have "single_spaced (x @ CHR '' '' # b # bs) = single_spaced (CHR '' '' # b # bs)"
    using 3(2) single_spaced_word [of x "CHR '' '' # b # bs"] by simp
  also have "\<dots> = single_spaced (b # bs)" using b(2) by simp
  finally show ?case using ih b(1) by simp
qed

lemma single_spaced_formatted: "single_spaced (formatted s)"
  unfolding formatted_def using split_ws_clean by (intro join_single_spaced) blast

lemma strip_rtrim: "strip s = rtrim (dropWhile is_space s)"
  by (simp add: strip_def rtrim_def)

lemma rtrim_Cons:
  "rtrim (a # s) = (if rtrim s = [] then (if is_space a then [] else [a]) else a # rtrim s)"
  by (simp add: rtrim_def dropWhile_append dropWhile_eq_Nil_conv)

lemma rtrim_Nil: "rtrim [] = []"
  by (simp add: rtrim_def)

lemma join_Cons:
  "join sep (x # ts) = (if ts = [] then x else x @ sep @ join sep ts)"
  by (cases ts) simp_all

lemma join_nonempty:
  "ts \<noteq> [] \<Longrightarrow> \<forall>t\<in>set ts. t \<noteq> [] \<Longrightarrow> join sep ts \<noteq> []"
  by (induction sep ts rule: join.induct) auto

lemma dropWhile_squeeze: "dropWhile is_space (squeeze t) = squeeze (dropWhile is_space t)"
proof (cases t)
  case Nil
  then show ?thesis by simp
next
  case (Cons x xs)
  show ?thesis
  proof (cases "is_space x")
    case False
    then show ?thesis using Cons by simp
  next
    case True
    have sp: "is_space CHR '' ''" by (simp add: is_space_def)
    have "dropWhile is_space (squeeze (dropWhile is_space xs)) = squeeze (dropWhile is_space xs)"
    proof (cases "dropWhile is_space xs")
      case Nil
      show ?thesis unfolding Nil by simp
    next
      case (Cons y ys)
      then have "\<not> is_space y" using hd_dropWhile [of is_space xs] by auto
      then show ?thesis unfolding Cons by simp
    qed
    then show ?thesis using Cons True sp by simp
  qed
qed

lemma join_tokens_squeeze:
  "\<forall>c\<in>set cur. \<not> is_space c \<Longrightarrow>
     join '' '' (tokens is_space cur t) =
       (if cur = [] then rtrim (squeeze (dropWhile is_space t)) else cur @ rtrim (squeeze t))"
proof (induction t arbitrary: cur)
  case Nil
  then show ?case by (simp add: rtrim_Nil)
next
  case (Cons x xs)
  show ?case
  proof (cases "is_space x")
    case False
    have c: "\<forall>c\<in>set (cur @ [x]). \<not> is_space c" using Cons.prems False by simp
    have "join '' '' (tokens is_space (cur @ [x]) xs) = (cur @ [x]) @ rtrim (squeeze xs)"
      using Cons.IH [OF c] by simp
    moreover have "rtrim (x # squeeze xs) = x # rtrim (squeeze xs)"
      using False by (simp add: rtrim_Cons)
    ultimately show ?thesis using False by simp
  next
    case True
    have e: "\<forall>c\<in>set ([]::string). \<not> is_space c" by simp
    have ih: "join '' '' (tokens is_space [] xs) = rtrim (squeeze (dropWhile is_space xs))"
      using Cons.IH [OF e] by simp
    show ?thesis
    proof (cases "cur = []")
      case c: True
      then show ?thesis using True ih by simp
    next
      case c: False
      have sp: "is_space CHR '' ''" by (simp add: is_space_def)
      show ?thesis
      proof (cases "tokens is_space [] xs = []")
        case t: True
        then have "rtrim (squeeze (dropWhile is_space xs)) = []" using ih by simp
        then have "rtrim (CHR '' '' # squeeze (dropWhile is_space xs)) = []"
          using sp by (simp add: rtrim_Cons)
        then show ?thesis using True c t by simp
      next
        case t: False
        have "\<forall>w\<in>set (tokens is_space [] xs). w \<noteq> []"
          using tokens_clean_all [OF e, of xs] by blast
        then have "join '' '' (tokens is_space [] xs) \<noteq> []" using t by (intro join_nonempty)
        then have ne: "rtrim (squeeze (dropWhile is_space xs)) \<noteq> []" using ih by simp
        then have "rtrim (CHR '' '' # squeeze (dropWhile is_space xs)) =
                     CHR '' '' # rtrim (squeeze (dropWhile is_space xs))"
          by (simp add: rtrim_Cons)
        then show ?thesis using True c t ih by (simp add: join_Cons)
      qed
    qed
  qed
qed

lemma formatted_squeeze: "formatted t = strip (squeeze t)"
proof -
  have e: "\<forall>c\<in>set ([]::string). \<not> is_space c" by simp
  have "formatted t = rtrim (squeeze (dropWhile is_space t))"
    using join_tokens_squeeze [OF e, of t] by (simp add: formatted_def split_ws_def)
  then show ?thesis by (simp add: strip_rtrim dropWhile_squeeze)
qed


section \<open>Facts about the scanner loop\<close>


declare scan_loop.simps [simp del]

lemma comment_line_step_plain:
  "\<not> has_any_marker s \<Longrightarrow> comment_line_step s n cur out ev = (cur @ [strip s], out, ev)"
  by (simp add: comment_line_step_def)

lemma comment_line_step_parsed:
  "has_any_marker s \<Longrightarrow> process_source_line_comment (suppress_comment (cur @ [strip s])) = Some d
     \<Longrightarrow> comment_line_step s n cur out ev = ([], out @ [d], ev)"
  by (simp add: comment_line_step_def)

lemma comment_line_step_malformed:
  "has_any_marker s \<Longrightarrow> process_source_line_comment (suppress_comment (cur @ [strip s])) = None
     \<Longrightarrow> comment_line_step s n cur out ev =
           ([], out, ev @ [Log_Warning n (join '' '' (rev (cur @ [strip s])))])"
  by (simp add: comment_line_step_def)

lemma comment_line_step_out:
  "fst (snd (comment_line_step s n cur out ev)) = out @ fst (snd (comment_line_step s n cur [] ev'))"
  by (simp add: comment_line_step_def Let_def split: option.splits)

lemma comment_line_step_acc:
  "fst (comment_line_step s n cur out ev) = fst (comment_line_step s n cur out' ev')"
  by (simp add: comment_line_step_def Let_def split: option.splits)

lemma scan_loop_stop:
  "\<not> check_if_comment (gl n) \<Longrightarrow> scan_loop gl n cur out ev = (out, ev @ [Get_Line n])"
  by (subst scan_loop.simps) simp

lemma scan_loop_continue:
  "check_if_comment (gl n) \<Longrightarrow> 0 < n \<Longrightarrow>
     scan_loop gl n cur out ev =
       (case comment_line_step (gl n) n cur out (ev @ [Get_Line n]) of
          (cur2, out2, ev2) \<Rightarrow> scan_loop gl (n - 1) cur2 out2 ev2)"
  by (subst scan_loop.simps) (simp add: Let_def split: prod.splits)

lemma scan_loop_top:
  "check_if_comment (gl n) \<Longrightarrow> \<not> 0 < n \<Longrightarrow>
     scan_loop gl n cur out ev =
       (case comment_line_step (gl n) n cur out (ev @ [Get_Line n]) of
          (cur2, out2, ev2) \<Rightarrow> (out2, ev2))"
  by (subst scan_loop.simps) (simp add: Let_def split: prod.splits)

lemma scan_loop_out:
  "fst (scan_loop gl n cur out ev) = out @ fst (scan_loop gl n cur [] ev')"
proof (induction "nat n" arbitrary: n cur out ev ev' rule: less_induct)
  case less
  show ?case
  proof (cases "check_if_comment (gl n)")
    case False
    then show ?thesis by (simp add: scan_loop_stop)
  next
    case c: True
    obtain c1 o1 e1 where s1: "comment_line_step (gl n) n cur out (ev @ [Get_Line n]) = (c1, o1, e1)"
      by (metis prod_cases3)
    obtain c2 o2 e2 where s2: "comment_line_step (gl n) n cur [] (ev' @ [Get_Line n]) = (c2, o2, e2)"
      by (metis prod_cases3)
    have cc: "c1 = c2" using comment_line_step_acc [of "gl n" n cur out "ev @ [Get_Line n]" "[]" "ev' @ [Get_Line n]"] s1 s2 by simp
    have oo: "o1 = out @ o2" using comment_line_step_out [of "gl n" n cur out "ev @ [Get_Line n]" "ev' @ [Get_Line n]"] s1 s2 by simp
    show ?thesis
    proof (cases "0 < n")
      case True
      have "nat (n - 1) < nat n" using True by simp
      from less [OF this, of c1 o1 e1 e2] less [OF this, of c2 o2 e2 e2]
      show ?thesis using c True s1 s2 cc oo by (simp add: scan_loop_continue)
    next
      case False
      then show ?thesis using c s1 s2 oo by (simp add: scan_loop_top)
    qed
  qed
qed


lemma scan_loop_events:
  "fst (scan_loop gl n cur out ev) = fst (scan_loop gl n cur out ev')"
  using scan_loop_out [of gl n cur out ev ev'] scan_loop_out [of gl n cur out ev' ev'] by simp

lemma comment_line_step_events:
  "comment_line_step s n cur out ev = (c, out2, e) \<Longrightarrow>
     \<exists>e'. comment_line_step s n cur out ev' = (c, out2, e')"
  by (auto simp: comment_line_step_def Let_def split: option.splits if_splits)

lemma rev_upto_last: "n \<le> m \<Longrightarrow> rev [n..m] = m # rev [n..m - 1]"
  by (simp add: upto_rec2)

lemma block_scan_acc:
  assumes "1 \<le> n" "n \<le> m"
    and "\<forall>j. n < j \<and> j \<le> m \<longrightarrow> check_if_comment (gl j) \<and> \<not> has_any_marker (gl j)"
    and "check_if_comment (gl n)" "has_any_marker (gl n)"
  shows "fst (scan_loop gl m cur out ev) =
           out @ (case process_source_line_comment
                         (suppress_comment (cur @ map (\<lambda>j. strip (gl j)) (rev [n..m]))) of
                    Some d \<Rightarrow> [d] | None \<Rightarrow> [])
               @ fst (scan_loop gl (n - 1) [] [] [])"
  using assms(2,3)
proof (induction "nat (m - n)" arbitrary: m cur ev)
  case 0
  then have mn: "m = n" by simp
  have pos: "0 < n" using assms(1) by simp
  show ?case
  proof (cases "process_source_line_comment (suppress_comment (cur @ [strip (gl n)]))")
    case None
    then show ?thesis
      using assms(4,5) pos scan_loop_out [of gl "n - 1" "[]" out _ "[]"]
      by (simp add: mn scan_loop_continue comment_line_step_malformed)
  next
    case (Some d)
    then show ?thesis
      using assms(4,5) pos scan_loop_out [of gl "n - 1" "[]" "out @ [d]" _ "[]"]
      by (simp add: mn scan_loop_continue comment_line_step_parsed)
  qed
next
  case (Suc k)
  then have lt: "n < m" by simp
  then have pos: "0 < m" using assms(1) by simp
  have cm: "check_if_comment (gl m)" "\<not> has_any_marker (gl m)" using Suc.prems lt by auto
  have k: "k = nat (m - 1 - n)" using Suc.hyps(2) by simp
  have le: "n \<le> m - 1" using lt by simp
  have run: "\<forall>j. n < j \<and> j \<le> m - 1 \<longrightarrow> check_if_comment (gl j) \<and> \<not> has_any_marker (gl j)"
    using Suc.prems by auto
  have "fst (scan_loop gl m cur out ev) =
          fst (scan_loop gl (m - 1) (cur @ [strip (gl m)]) out (ev @ [Get_Line m]))"
    using cm pos by (simp add: scan_loop_continue comment_line_step_plain)
  also have "\<dots> = out @ (case process_source_line_comment
                         (suppress_comment ((cur @ [strip (gl m)]) @ map (\<lambda>j. strip (gl j)) (rev [n..m - 1]))) of
                    Some d \<Rightarrow> [d] | None \<Rightarrow> [])
               @ fst (scan_loop gl (n - 1) [] [] [])"
    by (rule Suc.hyps(1) [OF k le run])
  finally show ?case using lt by (simp add: rev_upto_last)
qed

lemma suppress_comment_block:
  "suppress_comment (map (\<lambda>j. strip (gl j)) (rev [n..m])) = block_text gl n m"
  by (simp add: suppress_comment_def block_text_def rev_map [symmetric])

lemma block_scan:
  assumes "1 \<le> n" "n \<le> m"
    and "\<forall>j. n < j \<and> j \<le> m \<longrightarrow> check_if_comment (gl j) \<and> \<not> has_any_marker (gl j)"
    and "check_if_comment (gl n)" "has_any_marker (gl n)"
  shows "fst (scan_loop gl m [] out ev) =
           out @ (case process_source_line_comment (block_text gl n m) of
                    Some d \<Rightarrow> [d] | None \<Rightarrow> [])
               @ fst (scan_loop gl (n - 1) [] [] [])"
  using block_scan_acc [OF assms, of "[]" out ev] by (simp add: suppress_comment_block)

lemma markerless_run:
  assumes "\<not> check_if_comment (gl k)" "0 \<le> k"
  shows "k \<le> n \<Longrightarrow> \<forall>j. k < j \<and> j \<le> n \<longrightarrow> check_if_comment (gl j) \<and> \<not> has_any_marker (gl j)
           \<Longrightarrow> fst (scan_loop gl n cur out ev) = out"
proof (induction "nat (n - k)" arbitrary: n cur ev)
  case 0
  then have "n = k" by simp
  then show ?case using assms(1) by (simp add: scan_loop_stop)
next
  case (Suc d)
  then have lt: "k < n" by simp
  then have pos: "0 < n" using assms(2) by simp
  have cm: "check_if_comment (gl n)" "\<not> has_any_marker (gl n)" using Suc.prems lt by auto
  have d: "d = nat (n - 1 - k)" using Suc.hyps(2) by simp
  have le: "k \<le> n - 1" using lt by simp
  have run: "\<forall>j. k < j \<and> j \<le> n - 1 \<longrightarrow> check_if_comment (gl j) \<and> \<not> has_any_marker (gl j)"
    using Suc.prems by auto
  show ?case
    using cm pos Suc.hyps(1) [OF d le run] by (simp add: scan_loop_continue comment_line_step_plain)
qed

lemma requested_lines_append:
  "requested_lines (xs @ ys) = requested_lines xs @ requested_lines ys"
  by (induction xs rule: requested_lines.induct) simp_all

lemma comment_line_step_requests:
  "requested_lines (snd (snd (comment_line_step s n cur out ev))) = requested_lines ev"
  by (simp add: comment_line_step_def Let_def requested_lines_append split: option.splits)

lemma comment_run_requests:
  assumes "\<not> check_if_comment (gl k)" "0 \<le> k"
  shows "k \<le> n \<Longrightarrow> \<forall>j. k < j \<and> j \<le> n \<longrightarrow> check_if_comment (gl j)
           \<Longrightarrow> requested_lines (snd (scan_loop gl n cur out ev)) = requested_lines ev @ rev [k..n]"
proof (induction "nat (n - k)" arbitrary: n cur out ev)
  case 0
  then have "n = k" by simp
  then show ?case using assms(1) by (simp add: scan_loop_stop requested_lines_append)
next
  case (Suc d)
  then have lt: "k < n" by simp
  then have pos: "0 < n" using assms(2) by simp
  have cm: "check_if_comment (gl n)" using Suc.prems lt by auto
  have d: "d = nat (n - 1 - k)" using Suc.hyps(2) by simp
  have le: "k \<le> n - 1" using lt by simp
  have run: "\<forall>j. k < j \<and> j \<le> n - 1 \<longrightarrow> check_if_comment (gl j)"
    using Suc.prems by auto
  obtain c1 o1 e1 where s1: "comment_line_step (gl n) n cur out (ev @ [Get_Line n]) = (c1, o1, e1)"
    by (metis prod_cases3)
  have e1: "requested_lines e1 = requested_lines ev @ [n]"
    using comment_line_step_requests [of "gl n" n cur out "ev @ [Get_Line n]"] s1
    by (simp add: requested_lines_append)
  have kn: "k \<le> n" using lt by simp
  show ?case
    using cm pos s1 e1 Suc.hyps(1) [OF d le run, of c1 o1 e1]
    by (simp add: scan_loop_continue rev_upto_last [OF kn])
qed

lemma scan_loop_agree:
  assumes "1 \<le> m"
    and "\<And>cur out ev. fst (scan_loop gl (m - 1) cur out ev) = out"
    and "\<And>cur out ev. fst (scan_loop gl' (m - 1) cur out ev) = out"
  shows "m - 1 \<le> n \<Longrightarrow> \<forall>j. m \<le> j \<and> j \<le> n \<longrightarrow> gl j = gl' j
           \<Longrightarrow> fst (scan_loop gl n cur out ev) = fst (scan_loop gl' n cur out ev')"
proof (induction "nat (n - (m - 1))" arbitrary: n cur out ev ev')
  case 0
  then have "n = m - 1" by simp
  then show ?case using assms(2,3) by simp
next
  case (Suc d)
  then have lt: "m \<le> n" by simp
  then have pos: "0 < n" using assms(1) by simp
  have eq: "gl n = gl' n" using Suc.prems lt by simp
  have d: "d = nat (n - 1 - (m - 1))" using Suc.hyps(2) by simp
  have le: "m - 1 \<le> n - 1" using lt by simp
  have ag: "\<forall>j. m \<le> j \<and> j \<le> n - 1 \<longrightarrow> gl j = gl' j" using Suc.prems by auto
  show ?case
  proof (cases "check_if_comment (gl n)")
    case False
    then show ?thesis using eq by (simp add: scan_loop_stop)
  next
    case True
    obtain c1 o1 e1 where s1: "comment_line_step (gl n) n cur out (ev @ [Get_Line n]) = (c1, o1, e1)"
      by (metis prod_cases3)
    from comment_line_step_events [OF s1, of "ev' @ [Get_Line n]"]
    obtain e2 where s2: "comment_line_step (gl n) n cur out (ev' @ [Get_Line n]) = (c1, o1, e2)"
      by blast
    show ?thesis
      using True pos s1 s2 eq Suc.hyps(1) [OF d le ag, of c1 o1 e1 e2]
      by (simp add: scan_loop_continue)
  qed
qed

lemma check_if_comment_empty: "\<not> check_if_comment []"
  by (simp add: check_if_comment_def strip_def)

section \<open>The scanner: first line, stopping, malformed blocks\<close>

text \<open>
  Claim C5. When \<open>bug_line - 1 < 1\<close>, in particular for \<open>bug_line = 1\<close>,
  \<open>get_source_line_comments\<close> returns the empty list, and the line reader is not
  called: the call produces no event at all.
\<close>

theorem scan_first_line_empty:
  "bug_line - 1 < 1 \<Longrightarrow>
     get_source_line_comments get_line bug_line = [] \<and> snd (scan get_line bug_line) = []"
  by (simp add: get_source_line_comments_def scan_def)

theorem scan_first_line_empty_witness:
  "(1::int) - 1 < 1 \<and> get_source_line_comments wildcard_below_explicit 1 = []
     \<and> snd (scan wildcard_below_explicit 1) = []"
  using scan_first_line_empty [of 1 wildcard_below_explicit] by simp

text \<open>
  Claim C3, evaluated on the code. The file has one line, a comment, and the bug is
  reported on line 2. The scanner reads line 1, finds \<open>previous_line_num > 0\<close> true for
  1, decrements to 0 and asks the line reader for line 0 before it stops.
\<close>

theorem scan_requests_line_zero:
  "requested_lines (snd (scan fully_commented 2)) = [1, 0]"
  by code_simp

text \<open>
  Claim C6. Let line \<open>k\<close> be the first line above the bug line that is not a comment
  (every line strictly between \<open>k\<close> and \<open>bug_line\<close> is one). Then the lines read are
  exactly \<open>bug_line - 1\<close> down to \<open>k\<close>, so scanning stops at \<open>k\<close>. If moreover the lines
  strictly between \<open>k\<close> and some \<open>m\<close> carry no marker (they are the comment lines
  accumulated since the last closed block), the result is the one of the file in which
  every line below \<open>m\<close> is empty: those lines, and everything at or above \<open>k\<close>, contribute
  nothing. With \<open>m = bug_line\<close>, which includes the case where the line directly above
  the bug line is not a comment, the result is empty.
\<close>

theorem scan_stops_at_non_comment:
  assumes "1 \<le> k" "k < m" "m \<le> bug_line" "\<not> check_if_comment (gl k)"
    and "\<forall>j. k < j \<and> j < bug_line \<longrightarrow> check_if_comment (gl j)"
    and "\<forall>j. k < j \<and> j < m \<longrightarrow> \<not> has_any_marker (gl j)"
  shows "requested_lines (snd (scan gl bug_line)) = rev [k..bug_line - 1]
       \<and> get_source_line_comments gl bug_line =
           get_source_line_comments (\<lambda>j. if j < m then [] else gl j) bug_line
       \<and> (m = bug_line \<longrightarrow> get_source_line_comments gl bug_line = [])"
proof -
  let ?gl' = "\<lambda>j. if j < m then [] else gl j"
  have start: "\<not> bug_line - 1 < 1" using assms(1-3) by simp
  have k0: "0 \<le> k" using assms(1) by simp
  have r: "requested_lines (snd (scan gl bug_line)) = rev [k..bug_line - 1]"
    using start comment_run_requests [of gl k "bug_line - 1" "[]" "[]" "[]", OF assms(4) k0]
      assms(2,3,5)
    by (simp add: scan_def)
  have below: "fst (scan_loop gl (m - 1) cur out ev) = out" for cur out ev
    using markerless_run [of gl k "m - 1" cur out ev, OF assms(4) k0] assms(2,3,5,6) by simp
  have below': "fst (scan_loop ?gl' (m - 1) cur out ev) = out" for cur out ev
    by (simp add: scan_loop_stop check_if_comment_empty)
  have m1: "1 \<le> m" using assms(1,2) by simp
  have "fst (scan_loop gl (bug_line - 1) [] [] []) = fst (scan_loop ?gl' (bug_line - 1) [] [] [])"
    using scan_loop_agree [of m gl ?gl' "bug_line - 1" "[]" "[]" "[]" "[]", OF m1 below below']
      assms(3)
    by simp
  then have e: "get_source_line_comments gl bug_line = get_source_line_comments ?gl' bug_line"
    using start by (simp add: get_source_line_comments_def scan_def)
  have "get_source_line_comments ?gl' bug_line = []" if "m = bug_line"
    using start that
    by (simp add: get_source_line_comments_def scan_def scan_loop_stop check_if_comment_empty)
  then show ?thesis using r e by simp
qed

theorem scan_stops_at_non_comment_witness:
  "requested_lines (snd (scan code_between_comments 4)) = [3, 2]
     \<and> get_source_line_comments code_between_comments 4 = []"
proof -
  have h1: "(1::int) \<le> 2" "(2::int) < 4" "(4::int) \<le> 4" by simp_all
  have h4: "\<not> check_if_comment (code_between_comments 2)" by code_simp
  have c3: "check_if_comment (code_between_comments 3)" by code_simp
  have m3: "\<not> has_any_marker (code_between_comments 3)" by code_simp
  have j3: "j = 3" if "2 < j \<and> j < 4" for j :: int using that by presburger
  have h5: "\<forall>j. 2 < j \<and> j < 4 \<longrightarrow> check_if_comment (code_between_comments j)"
    using c3 j3 by blast
  have h6: "\<forall>j. 2 < j \<and> j < 4 \<longrightarrow> \<not> has_any_marker (code_between_comments j)"
    using m3 j3 by blast
  have u: "rev [2..(4::int) - 1] = [3, 2]" by code_simp
  note c = scan_stops_at_non_comment [OF h1 h4 h5 h6]
  have a: "requested_lines (snd (scan code_between_comments 4)) = rev [2..4 - 1]"
    by (rule conjunct1 [OF c])
  have "(4::int) = 4 \<longrightarrow> get_source_line_comments code_between_comments 4 = []"
    by (rule conjunct2 [OF conjunct2 [OF c]])
  then have b: "get_source_line_comments code_between_comments 4 = []" by simp
  show ?thesis using a b u by simp
qed

text \<open>
  Claim C7. The block nearest to the bug line is the lines \<open>n\<close> to \<open>bug_line - 1\<close>: all
  comments, the marker on line \<open>n\<close> only. If its text does not parse, the block adds no
  directive and the scan goes on at line \<open>n - 1\<close> with an empty accumulator; for
  \<open>n \<ge> 2\<close> that is the scan for a bug on line \<open>n\<close>. A well-formed block \<open>n'\<close> to \<open>n - 1\<close>
  directly above it, with directive \<open>d\<close>, puts \<open>d\<close> at the head of the result. The
  warning for the malformed block is logged with the line number of its marker.
\<close>

theorem malformed_block_skipped:
  assumes "1 \<le> n" "n < bug_line"
    and "\<forall>j. n < j \<and> j < bug_line \<longrightarrow> check_if_comment (gl j) \<and> \<not> has_any_marker (gl j)"
    and "check_if_comment (gl n)" "has_any_marker (gl n)"
    and "process_source_line_comment (block_text gl n (bug_line - 1)) = None"
  shows "get_source_line_comments gl bug_line = fst (scan_loop gl (n - 1) [] [] [])
       \<and> (2 \<le> n \<longrightarrow> get_source_line_comments gl bug_line = get_source_line_comments gl n)
       \<and> (\<forall>n' d. 1 \<le> n' \<and> n' < n
              \<and> (\<forall>j. n' < j \<and> j < n \<longrightarrow> check_if_comment (gl j) \<and> \<not> has_any_marker (gl j))
              \<and> check_if_comment (gl n') \<and> has_any_marker (gl n')
              \<and> process_source_line_comment (block_text gl n' (n - 1)) = Some d
            \<longrightarrow> get_source_line_comments gl bug_line = d # fst (scan_loop gl (n' - 1) [] [] []))"
proof -
  have start: "\<not> bug_line - 1 < 1" using assms(1,2) by simp
  have le: "n \<le> bug_line - 1" using assms(2) by simp
  have run: "\<forall>j. n < j \<and> j \<le> bug_line - 1 \<longrightarrow> check_if_comment (gl j) \<and> \<not> has_any_marker (gl j)"
    using assms(3) by simp
  have a: "get_source_line_comments gl bug_line = fst (scan_loop gl (n - 1) [] [] [])"
    using start block_scan [OF assms(1) le run assms(4,5), of "[]" "[]"] assms(6)
    by (simp add: get_source_line_comments_def scan_def)
  have b: "get_source_line_comments gl bug_line = get_source_line_comments gl n" if "2 \<le> n"
    using a that by (simp add: get_source_line_comments_def scan_def)
  have c: "get_source_line_comments gl bug_line = d # fst (scan_loop gl (n' - 1) [] [] [])"
    if h: "1 \<le> n'" "n' < n"
      "\<forall>j. n' < j \<and> j < n \<longrightarrow> check_if_comment (gl j) \<and> \<not> has_any_marker (gl j)"
      "check_if_comment (gl n')" "has_any_marker (gl n')"
      "process_source_line_comment (block_text gl n' (n - 1)) = Some d" for n' d
  proof -
    have le': "n' \<le> n - 1" using h(2) by simp
    have run': "\<forall>j. n' < j \<and> j \<le> n - 1 \<longrightarrow> check_if_comment (gl j) \<and> \<not> has_any_marker (gl j)"
      using h(3) by simp
    show ?thesis
      using a block_scan [OF h(1) le' run' h(4,5), of "[]" "[]"] h(6) by simp
  qed
  show ?thesis using a b c by blast
qed

theorem malformed_block_skipped_witness:
  "process_source_line_comment (block_text malformed_below_confirmed 2 2) = None
   \<and> get_source_line_comments malformed_below_confirmed 3 =
       [\<lparr>checkers = {''core.Foo''}, message = ''ok'', status = ''confirmed''\<rparr>]
   \<and> get_source_line_comments malformed_below_confirmed 3 =
       get_source_line_comments malformed_below_confirmed 2"
proof -
  let ?d = "\<lparr>checkers = {''core.Foo''}, message = ''ok'', status = ''confirmed''\<rparr>"
  have h1: "(1::int) \<le> 2" "(2::int) < 3" by simp_all
  have h3: "\<forall>j. 2 < j \<and> j < 3 \<longrightarrow>
      check_if_comment (malformed_below_confirmed j) \<and> \<not> has_any_marker (malformed_below_confirmed j)"
    by presburger
  have h4: "check_if_comment (malformed_below_confirmed 2)" by code_simp
  have h5: "has_any_marker (malformed_below_confirmed 2)" by code_simp
  have h6: "process_source_line_comment (block_text malformed_below_confirmed 2 (3 - 1)) = None"
    by code_simp
  note c = malformed_block_skipped [OF h1 h3 h4 h5 h6]
  have g1: "(1::int) \<le> 1 \<and> (1::int) < 2" by simp
  have g3: "\<forall>j. 1 < j \<and> j < 2 \<longrightarrow>
      check_if_comment (malformed_below_confirmed j) \<and> \<not> has_any_marker (malformed_below_confirmed j)"
    by presburger
  have g4: "check_if_comment (malformed_below_confirmed 1)" by code_simp
  have g5: "has_any_marker (malformed_below_confirmed 1)" by code_simp
  have g6: "process_source_line_comment (block_text malformed_below_confirmed 1 (2 - 1)) = Some ?d"
    by code_simp
  have top: "fst (scan_loop malformed_below_confirmed (1 - 1) [] [] []) = []" by code_simp
  have "get_source_line_comments malformed_below_confirmed 3 =
          ?d # fst (scan_loop malformed_below_confirmed (1 - 1) [] [] [])"
    using conjunct2 [OF conjunct2 [OF c]] g1 g3 g4 g5 g6 by blast
  then have r: "get_source_line_comments malformed_below_confirmed 3 = [?d]"
    using top by simp
  have "(2::int) \<le> 2 \<longrightarrow> get_source_line_comments malformed_below_confirmed 3 =
          get_source_line_comments malformed_below_confirmed 2"
    by (rule conjunct1 [OF conjunct2 [OF c]])
  then have s: "get_source_line_comments malformed_below_confirmed 3 =
          get_source_line_comments malformed_below_confirmed 2" by simp
  have p: "process_source_line_comment (block_text malformed_below_confirmed 2 2) = None"
    using h6 by simp
  show ?thesis using p r s by blast
qed

text \<open>
  Claim C10. \<open>has_source_line_comments\<close> returns the number of directives parsed for
  the line, the length of the list that \<open>get_source_line_comments\<close> returns, as an
  integer; for a line with two directive blocks above it the value is 2.
\<close>

theorem has_source_line_comments_is_count:
  "has_source_line_comments get_line line = int (length (get_source_line_comments get_line line))
   \<and> has_source_line_comments wildcard_below_explicit 3 = 2"
proof
  show "has_source_line_comments get_line line =
          int (length (get_source_line_comments get_line line))"
    by (simp add: has_source_line_comments_def)
  show "has_source_line_comments wildcard_below_explicit 3 = 2"
    by code_simp
qed

section \<open>The checker filter: wildcard and explicit matches\<close>

text \<open>
  Claim C1, evaluated on the code. The file has an explicit directive for \<open>x\<close> on line
  1 and a wildcard directive on line 2, the bug is on line 3. The scanner returns the
  wildcard directive first. The filter for \<open>x\<close> returns the explicit directive followed
  by the wildcard one: \<open>comment_len\<close> still holds the count from before the last
  iteration, 0, when it is tested after the loop.
\<close>

theorem filter_appends_wildcard_after_explicit:
  "get_source_line_comments wildcard_below_explicit 3 =
     [\<lparr>checkers = {''all''}, message = ''bar'', status = ''false_positive''\<rparr>,
      \<lparr>checkers = {''x''}, message = ''foo'', status = ''false_positive''\<rparr>]
   \<and> filter_source_line_comments wildcard_below_explicit 3 ''x'' =
     [\<lparr>checkers = {''x''}, message = ''foo'', status = ''false_positive''\<rparr>,
      \<lparr>checkers = {''all''}, message = ''bar'', status = ''false_positive''\<rparr>]"
  by code_simp

text \<open>
  Claim C9. When the scanner's output is a single directive whose checkers set is
  \<open>{all}\<close> and the checker name is the string \<open>all\<close>, the filter returns that directive
  twice: once as the explicit match, once as the wildcard fallback.
\<close>

theorem filter_all_returns_directive_twice:
  "get_source_line_comments get_line bug_line = [d] \<Longrightarrow> checkers d = {''all''} \<Longrightarrow>
     filter_source_line_comments get_line bug_line ''all'' = [d, d]"
  by (simp add: filter_source_line_comments_def filter_comments_def)

theorem filter_all_returns_directive_twice_witness:
  "get_source_line_comments only_wildcard 2 =
     [\<lparr>checkers = {''all''}, message = ''x'', status = ''false_positive''\<rparr>]
   \<and> filter_source_line_comments only_wildcard 2 ''all'' =
     [\<lparr>checkers = {''all''}, message = ''x'', status = ''false_positive''\<rparr>,
      \<lparr>checkers = {''all''}, message = ''x'', status = ''false_positive''\<rparr>]"
proof -
  have h: "get_source_line_comments only_wildcard 2 =
     [\<lparr>checkers = {''all''}, message = ''x'', status = ''false_positive''\<rparr>]"
    by code_simp
  show ?thesis using h filter_all_returns_directive_twice [OF h] by simp
qed

section \<open>The parser: message and checkers\<close>



text \<open>
  Claim C2, as stated, fails: the brackets may be empty, and then the directive has an
  empty checkers set. The text \<^verbatim>\<open>codechecker_suppress [] x\<close> is accepted by the
  pattern, and so is the comment line \<^verbatim>\<open>// codechecker_suppress [] x\<close> above a bug
  on line 2.
\<close>

theorem empty_brackets_give_empty_checkers:
  "process_source_line_comment '' codechecker_suppress [] x'' =
     Some \<lparr>checkers = {}, message = ''x'', status = ''false_positive''\<rparr>
   \<and> get_source_line_comments empty_brackets 2 =
       [\<lparr>checkers = {}, message = ''x'', status = ''false_positive''\<rparr>]"
  by code_simp

text \<open>
  Claim C2, amended. Every element of the checkers set of a parsed directive is a
  non-empty token without comma and without whitespace, and the set is non-empty exactly
  when the checkers group of the match, the text between the brackets, has a character
  that is neither a comma nor whitespace.
\<close>

theorem checkers_tokens_clean:
  assumes "process_source_line_comment s = Some d"
  shows "(\<forall>t\<in>checkers d. t \<noteq> [] \<and> (\<forall>c\<in>set t. c \<noteq> CHR '','' \<and> \<not> is_space c))
       \<and> (\<forall>st ch cm. re_match (formatted s) = Some (st, ch, cm) \<longrightarrow>
             (checkers d \<noteq> {} \<longleftrightarrow> (\<exists>c\<in>set ch. c \<noteq> CHR '','' \<and> \<not> is_space c)))"
proof -
  obtain st ch cm where m: "re_match (formatted s) = Some (st, ch, cm)"
    using process_matches [OF assms] by blast
  note d = process_checkers [OF assms m]
  have first: "\<forall>t\<in>checkers d. t \<noteq> [] \<and> (\<forall>c\<in>set t. c \<noteq> CHR '','' \<and> \<not> is_space c)"
  proof (cases "ch = ''all''")
    case True
    then have a: "checkers d = {''all''}" using d by simp
    show ?thesis unfolding a by (rule ballI) (erule all_token_clean)
  next
    case False
    then have "checkers d = set (findall_checkers (strip ch))" using d by simp
    then show ?thesis using findall_checkers_clean by blast
  qed
  have ne: "checkers d \<noteq> {} \<longleftrightarrow> (\<exists>c\<in>set ch. c \<noteq> CHR '','' \<and> \<not> is_space c)"
  proof (cases "ch = ''all''")
    case True
    then have a: "checkers d = {''all''}" using d by simp
    have "\<exists>c\<in>set ''all''. c \<noteq> CHR '','' \<and> \<not> is_space c" by (simp add: is_space_def)
    then have "\<exists>c\<in>set ch. c \<noteq> CHR '','' \<and> \<not> is_space c" unfolding True .
    moreover have "checkers d \<noteq> {}" unfolding a by simp
    ultimately show ?thesis by (intro iffI)
  next
    case False
    then have a: "checkers d = set (findall_checkers (strip ch))" using d by simp
    have "findall_checkers (strip ch) \<noteq> [] \<longleftrightarrow> (\<exists>c\<in>set (strip ch). \<not> is_space c \<and> c \<noteq> CHR '','')"
      unfolding findall_checkers_empty_iff by blast
    also have "\<dots> \<longleftrightarrow> (\<exists>c\<in>set ch. \<not> is_space c \<and> c \<noteq> CHR '','')"
      by (rule strip_chars)
    finally have "findall_checkers (strip ch) \<noteq> [] \<longleftrightarrow> (\<exists>c\<in>set ch. \<not> is_space c \<and> c \<noteq> CHR '','')" .
    then show ?thesis unfolding a set_empty by blast
  qed
  have "checkers d \<noteq> {} \<longleftrightarrow> (\<exists>c\<in>set ch'. c \<noteq> CHR '','' \<and> \<not> is_space c)"
    if "re_match (formatted s) = Some (st', ch', cm')" for st' ch' cm'
  proof -
    have "ch' = ch" using that m by simp
    then show ?thesis using ne by simp
  qed
  then show ?thesis using first by blast
qed

theorem checkers_tokens_clean_witness:
  "process_source_line_comment '' codechecker_suppress [a, b] x'' =
     Some \<lparr>checkers = {''a'', ''b''}, message = ''x'', status = ''false_positive''\<rparr>
   \<and> re_match (formatted '' codechecker_suppress [a, b] x'') =
       Some (''codechecker_suppress'', ''a, b'', ''x'')
   \<and> checkers \<lparr>checkers = {''a'', ''b''}, message = ''x'', status = ''false_positive''\<rparr> \<noteq> {}"
proof -
  let ?d = "\<lparr>checkers = {''a'', ''b''}, message = ''x'', status = ''false_positive''\<rparr>"
  have h: "process_source_line_comment '' codechecker_suppress [a, b] x'' = Some ?d"
    by code_simp
  have m: "re_match (formatted '' codechecker_suppress [a, b] x'') =
             Some (''codechecker_suppress'', ''a, b'', ''x'')"
    by code_simp
  have x: "\<exists>c\<in>set ''a, b''. c \<noteq> CHR '','' \<and> \<not> is_space c"
    by (simp add: is_space_def)
  note c = conjunct2 [OF checkers_tokens_clean [OF h]]
  have r: "checkers ?d \<noteq> {} \<longleftrightarrow> (\<exists>c\<in>set ''a, b''. c \<noteq> CHR '','' \<and> \<not> is_space c)"
    by (rule c [rule_format, OF m])
  have "checkers ?d \<noteq> {}" by (rule iffD2 [OF r x])
  then show ?thesis using h m by (intro conjI)
qed

section \<open>The scanner: the text of a block\<close>

text \<open>
  Claim C4, as stated, fails: the lines of a block are trimmed and concatenated with
  nothing between them, so a line break does not become a space. With
  \<^verbatim>\<open>// codechecker_suppress [a] some\<close> on line 1 and \<^verbatim>\<open>//comment\<close> on line 2 the
  pattern is given \<^verbatim>\<open>codechecker_suppress [a] somecomment\<close>, where the words of the
  claim give \<^verbatim>\<open>codechecker_suppress [a] some comment\<close>.
\<close>

theorem unspaced_lines_run_together:
  "formatted (block_text unspaced_continuation 1 2) = ''codechecker_suppress [a] somecomment''
   \<and> spec_block_text [unspaced_continuation 1, unspaced_continuation 2] =
       ''codechecker_suppress [a] some comment''
   \<and> get_source_line_comments unspaced_continuation 3 =
       [\<lparr>checkers = {''a''}, message = ''somecomment'', status = ''false_positive''\<rparr>]"
  by code_simp

text \<open>
  Claim C4, amended. Whenever the loop starts a block at line \<open>m\<close> (empty accumulator)
  and the block is closed by the marker line \<open>n\<close>, the parser is handed
  \<open>block_text get_line n m\<close>: the lines \<open>n\<close> to \<open>m\<close> in file order, each trimmed,
  concatenated with nothing between them, every \<^verbatim>\<open>//\<close> removed. Its directive, if
  any, is appended and the scan goes on at \<open>n - 1\<close>; for the block nearest to the bug line
  \<open>m + 1\<close> this gives the head of the result. The parser depends on this text only through
  its collapsed form \<open>formatted\<close> (line 114). That form is the text with every run of
  whitespace replaced by one space and the whitespace at both ends dropped
  (\<open>strip (squeeze t)\<close>): it has the same words, its only whitespace characters are
  spaces, no two of them are adjacent, and it neither starts nor ends with one. The
  two lines \<^verbatim>\<open>// codechecker_suppress [a,b] some\<close> and \<^verbatim>\<open>// comment\<close> yield one
  directive with checkers \<open>{a, b}\<close> and message \<^verbatim>\<open>some comment\<close>.
\<close>

theorem block_text_handed_to_parser:
  assumes "1 \<le> n" "n \<le> m"
    and "\<forall>j. n < j \<and> j \<le> m \<longrightarrow> check_if_comment (gl j) \<and> \<not> has_any_marker (gl j)"
    and "check_if_comment (gl n)" "has_any_marker (gl n)"
  shows "fst (scan_loop gl m [] out ev) =
           out @ (case process_source_line_comment (block_text gl n m) of
                    Some d \<Rightarrow> [d] | None \<Rightarrow> [])
               @ fst (scan_loop gl (n - 1) [] [] [])
       \<and> get_source_line_comments gl (m + 1) =
           (case process_source_line_comment (block_text gl n m) of
              Some d \<Rightarrow> [d] | None \<Rightarrow> [])
           @ fst (scan_loop gl (n - 1) [] [] [])
       \<and> process_source_line_comment (block_text gl n m) =
           process_source_line_comment (formatted (block_text gl n m))
       \<and> split_ws (formatted (block_text gl n m)) = split_ws (block_text gl n m)
       \<and> (\<forall>c\<in>set (formatted (block_text gl n m)). is_space c \<longrightarrow> c = CHR '' '')
       \<and> formatted (block_text gl n m) = strip (squeeze (block_text gl n m))
       \<and> strip (formatted (block_text gl n m)) = formatted (block_text gl n m)
       \<and> single_spaced (formatted (block_text gl n m))
       \<and> get_source_line_comments split_directive 3 =
           [\<lparr>checkers = {''a'', ''b''}, message = ''some comment'', status = ''false_positive''\<rparr>]"
proof -
  have a: "fst (scan_loop gl m [] out ev) =
           out @ (case process_source_line_comment (block_text gl n m) of
                    Some d \<Rightarrow> [d] | None \<Rightarrow> [])
               @ fst (scan_loop gl (n - 1) [] [] [])" for out ev
    by (rule block_scan [OF assms])
  have start: "\<not> m + 1 - 1 < 1" using assms(1,2) by simp
  have b: "get_source_line_comments gl (m + 1) =
           (case process_source_line_comment (block_text gl n m) of
              Some d \<Rightarrow> [d] | None \<Rightarrow> [])
           @ fst (scan_loop gl (n - 1) [] [] [])"
    using start a [of "[]" "[]"] by (simp add: get_source_line_comments_def scan_def)
  have c: "process_source_line_comment (block_text gl n m) =
           process_source_line_comment (formatted (block_text gl n m))"
    by (simp add: process_formatted)
  have d: "split_ws (formatted (block_text gl n m)) = split_ws (block_text gl n m)"
    by (rule split_ws_formatted)
  have e: "\<forall>c\<in>set (formatted (block_text gl n m)). is_space c \<longrightarrow> c = CHR '' ''"
    using formatted_spaces by blast
  have f: "get_source_line_comments split_directive 3 =
           [\<lparr>checkers = {''a'', ''b''}, message = ''some comment'', status = ''false_positive''\<rparr>]"
    by code_simp
  have g: "formatted (block_text gl n m) = strip (squeeze (block_text gl n m))"
    by (rule formatted_squeeze)
  have h: "strip (formatted (block_text gl n m)) = formatted (block_text gl n m)"
    by (rule strip_formatted)
  have i: "single_spaced (formatted (block_text gl n m))"
    by (rule single_spaced_formatted)
  show ?thesis using a b c d e g h i f by (intro conjI)
qed

theorem block_text_handed_to_parser_witness:
  "block_text split_directive 1 2 = '' codechecker_suppress [a,b] some comment''
   \<and> formatted (block_text split_directive 1 2) = ''codechecker_suppress [a,b] some comment''
   \<and> get_source_line_comments split_directive (2 + 1) =
       [\<lparr>checkers = {''a'', ''b''}, message = ''some comment'', status = ''false_positive''\<rparr>]"
proof -
  let ?d = "\<lparr>checkers = {''a'', ''b''}, message = ''some comment'', status = ''false_positive''\<rparr>"
  have h1: "(1::int) \<le> 1" "(1::int) \<le> 2" by simp_all
  have c2: "check_if_comment (split_directive 2)" by code_simp
  have m2: "\<not> has_any_marker (split_directive 2)" by code_simp
  have j2: "j = 2" if "1 < j \<and> j \<le> 2" for j :: int using that by presburger
  have h3: "\<forall>j. 1 < j \<and> j \<le> 2 \<longrightarrow>
      check_if_comment (split_directive j) \<and> \<not> has_any_marker (split_directive j)"
    using c2 m2 j2 by blast
  have h4: "check_if_comment (split_directive 1)" by code_simp
  have h5: "has_any_marker (split_directive 1)" by code_simp
  have t: "block_text split_directive 1 2 = '' codechecker_suppress [a,b] some comment''"
    by code_simp
  have p: "process_source_line_comment (block_text split_directive 1 2) = Some ?d"
    by code_simp
  have top: "fst (scan_loop split_directive (1 - 1) [] [] []) = []" by code_simp
  note c = block_text_handed_to_parser [OF h1 h3 h4 h5, of "[]" "[]"]
  have "get_source_line_comments split_directive (2 + 1) =
          (case process_source_line_comment (block_text split_directive 1 2) of
             Some d \<Rightarrow> [d] | None \<Rightarrow> [])
          @ fst (scan_loop split_directive (1 - 1) [] [] [])"
    by (rule conjunct1 [OF conjunct2 [OF c]])
  then have "get_source_line_comments split_directive (2 + 1) = [?d]"
    unfolding p top by simp
  moreover have "formatted (block_text split_directive 1 2) =
                   ''codechecker_suppress [a,b] some comment''"
    by code_simp
  ultimately show ?thesis using t by (intro conjI)
qed

end
